theory Spec2Isabelle
  imports Complex_Main "HOL-Library.Signed_Division"
begin

section \<open>Data model\<close>

text \<open>
  The programs \<^verbatim>\<open>h_serial.cpp\<close> and \<^verbatim>\<open>h_parallel.cpp\<close> (and their \<^verbatim>\<open>10k\<close> variants,
  which differ only in the step count) evolve a \<^verbatim>\<open>vector<complex<double>>\<close>.
  An amplitude is modelled as an exact complex number: the double-precision rounding of
  each operation is not part of the model, the order of the operations is.
  C++ \<^verbatim>\<open>int\<close> values are modelled as \<open>int\<close>; \<^verbatim>\<open>/\<close> and \<^verbatim>\<open>%\<close> truncate towards zero
  (\<open>sdiv\<close>, \<open>smod\<close>). No arithmetic of the programs can leave the 32-bit range for the
  sizes a vector can have.

  What C++ leaves undefined or answers with an exception is an error value:
  \<^item> \<open>AllocError\<close>: \<^verbatim>\<open>vector<...> psi(n, 1.0)\<close> with a negative \<^verbatim>\<open>int n\<close> (converted to a
    huge \<^verbatim>\<open>size_t\<close>, the constructor throws);
  \<^item> \<open>OutOfBounds\<close>: \<^verbatim>\<open>psi[i]\<close> with \<open>i\<close> outside \<open>[0, psi.size())\<close>.
\<close>

datatype error = AllocError | OutOfBounds

fun rbind :: "error + 'a \<Rightarrow> ('a \<Rightarrow> error + 'b) \<Rightarrow> error + 'b" where
  "rbind (Inl e) f = Inl e"
| "rbind (Inr x) f = f x"

text \<open>Running a list of fallible computations in order; the first error wins.\<close>

fun collect :: "(error + 'a) list \<Rightarrow> error + 'a list" where
  "collect [] = Inr []"
| "collect (r # rs) = rbind r (\<lambda>x. rbind (collect rs) (\<lambda>xs. Inr (x # xs)))"

text \<open>\<^verbatim>\<open>vector<complex<double>> psi(n, v)\<close>\<close>

definition alloc :: "int \<Rightarrow> complex \<Rightarrow> error + complex list" where
  "alloc n v = (if n < 0 then Inl AllocError else Inr (replicate (nat n) v))"

text \<open>\<^verbatim>\<open>psi[i]\<close> as a read and as an assignment target.\<close>

definition vec_get :: "complex list \<Rightarrow> int \<Rightarrow> error + complex" where
  "vec_get psi i =
     (if 0 \<le> i \<and> i < int (length psi) then Inr (psi ! nat i) else Inl OutOfBounds)"

definition vec_set :: "complex list \<Rightarrow> int \<Rightarrow> complex \<Rightarrow> error + complex list" where
  "vec_set psi i v =
     (if 0 \<le> i \<and> i < int (length psi) then Inr (psi[nat i := v]) else Inl OutOfBounds)"

section \<open>The update rule and the local sweep\<close>

text \<open>
  The right-hand side shared by both assignments of the loop body:
  \<^verbatim>\<open>cos(J*dt)*x - 1i*sin(J*dt)*y\<close>.
\<close>

definition amp_update :: "real \<Rightarrow> real \<Rightarrow> complex \<Rightarrow> complex \<Rightarrow> complex" where
  "amp_update J dt x y =
     complex_of_real (cos (J * dt)) * x - (\<i> * complex_of_real (sin (J * dt))) * y"

text \<open>
  \<^verbatim>\<open>
  for (int i = 0; i < n - 1; i++) {
      complex<double> temp = psi[i];
      psi[i]   = cos(J*dt)*psi[i]   - 1i*sin(J*dt)*psi[i+1];
      psi[i+1] = cos(J*dt)*psi[i+1] - 1i*sin(J*dt)*temp;
  }
  \<close>
  \<open>sweep J dt n i psi\<close> is the loop from index \<open>i\<close> on; \<open>n\<close> is the \<^verbatim>\<open>int\<close> bound of the
  loop (\<^verbatim>\<open>N\<close> in the serial program, \<^verbatim>\<open>local_N\<close> in the parallel one).
\<close>

function sweep :: "real \<Rightarrow> real \<Rightarrow> int \<Rightarrow> int \<Rightarrow> complex list \<Rightarrow> error + complex list" where
  "sweep J dt n i psi =
     (if i < n - 1 then
        rbind (vec_get psi i) (\<lambda>temp.
        rbind (vec_get psi (i + 1)) (\<lambda>nxt.
        rbind (vec_set psi i (amp_update J dt temp nxt)) (\<lambda>psi1.
        rbind (vec_get psi1 (i + 1)) (\<lambda>nxt1.
        rbind (vec_set psi1 (i + 1) (amp_update J dt nxt1 temp)) (\<lambda>psi2.
        sweep J dt n (i + 1) psi2)))))
      else Inr psi)"
  by pat_completeness auto
termination
  by (relation "measure (\<lambda>(J, dt, n, i, psi). nat (n - 1 - i))") auto

section \<open>The serial program\<close>

text \<open>
  \<^verbatim>\<open>for (int s = 0; s < steps; s++) { <sweep with bound N> }\<close>
\<close>

function serial_loop ::
  "real \<Rightarrow> real \<Rightarrow> int \<Rightarrow> int \<Rightarrow> int \<Rightarrow> complex list \<Rightarrow> error + complex list" where
  "serial_loop J dt N steps s psi =
     (if s < steps then
        rbind (sweep J dt N 0 psi) (\<lambda>psi'. serial_loop J dt N steps (s + 1) psi')
      else Inr psi)"
  by pat_completeness auto
termination
  by (relation "measure (\<lambda>(J, dt, N, steps, s, psi). nat (steps - s))") auto

text \<open>
  \<^verbatim>\<open>main\<close> of \<^verbatim>\<open>h_serial.cpp\<close> from the parsed argument \<open>N\<close> on; the source fixes
  \<open>steps = 1000\<close> (\<open>10000\<close> in the \<^verbatim>\<open>10k\<close> variant), \<open>dt = 0.01\<close>, \<open>J = 1.0\<close>. The result is
  the final content of \<^verbatim>\<open>psi\<close>.
\<close>

definition h_serial :: "real \<Rightarrow> real \<Rightarrow> int \<Rightarrow> int \<Rightarrow> error + complex list" where
  "h_serial J dt steps N = rbind (alloc N 1) (\<lambda>psi. serial_loop J dt N steps 0 psi)"

section \<open>The parallel program\<close>

subsection \<open>Domain decomposition\<close>

text \<open>
  \<^verbatim>\<open>
  int base = N / size;
  int rem = N % size;
  int local_N = base + (rank < rem ? 1 : 0);
  \<close>
\<close>

definition local_N :: "int \<Rightarrow> int \<Rightarrow> int \<Rightarrow> int" where
  "local_N N sz rank =
     (let base = N sdiv sz; rem = N smod sz
      in base + (if rank < rem then 1 else 0))"

text \<open>
  The source never computes a global offset. The offset of rank \<open>r\<close> is taken from the
  specification's words: the sum of the lengths of the ranks below \<open>r\<close>.
\<close>

definition offset :: "int \<Rightarrow> int \<Rightarrow> int \<Rightarrow> int" where
  "offset N sz r = sum_list (map (local_N N sz) [0..r - 1])"

text \<open>
  \<^verbatim>\<open>
  int left_rank  = (rank == 0 ? MPI_PROC_NULL : rank - 1);
  int right_rank = (rank == size-1 ? MPI_PROC_NULL : rank + 1);
  \<close>
  \<^verbatim>\<open>MPI_PROC_NULL\<close> is \<open>None\<close>.
\<close>

definition left_rank :: "int \<Rightarrow> int option" where
  "left_rank rank = (if rank = 0 then None else Some (rank - 1))"

definition right_rank :: "int \<Rightarrow> int \<Rightarrow> int option" where
  "right_rank sz rank = (if rank = sz - 1 then None else Some (rank + 1))"

subsection \<open>One step of one worker\<close>

text \<open>
  \<^verbatim>\<open>complex<double> left_send = psi[0], right_send = psi[local_N - 1];\<close>
\<close>

definition capture :: "int \<Rightarrow> complex list \<Rightarrow> error + (complex \<times> complex)" where
  "capture n psi =
     rbind (vec_get psi 0) (\<lambda>left_send.
     rbind (vec_get psi (n - 1)) (\<lambda>right_send.
     Inr (left_send, right_send)))"

text \<open>
  \<^verbatim>\<open>
  if (left_rank != MPI_PROC_NULL)      psi[0] = left_recv;
  if (right_rank != MPI_PROC_NULL)     psi[local_N - 1] = right_recv;
  \<close>
\<close>

definition apply_boundaries ::
  "int \<Rightarrow> int \<Rightarrow> int \<Rightarrow> complex \<Rightarrow> complex \<Rightarrow> complex list \<Rightarrow> error + complex list" where
  "apply_boundaries sz rank n left_recv right_recv psi =
     rbind (if left_rank rank \<noteq> None then vec_set psi 0 left_recv else Inr psi) (\<lambda>psi1.
     if right_rank sz rank \<noteq> None then vec_set psi1 (n - 1) right_recv else Inr psi1)"

definition worker_update ::
  "real \<Rightarrow> real \<Rightarrow> int \<Rightarrow> int \<Rightarrow> int \<Rightarrow> complex \<Rightarrow> complex \<Rightarrow> complex list
     \<Rightarrow> error + complex list" where
  "worker_update J dt sz rank n left_recv right_recv psi =
     rbind (apply_boundaries sz rank n left_recv right_recv psi) (\<lambda>psi1.
     sweep J dt n 0 psi1)"

subsection \<open>The halo exchange\<close>

text \<open>
  \<^verbatim>\<open>
  complex<double> left_recv = 0, right_recv = 0;
  MPI_Sendrecv(&left_send, ..., left_rank, 0, &right_recv, ..., right_rank, 0, ...);
  MPI_Sendrecv(&right_send, ..., right_rank, 1, &left_recv, ..., left_rank, 1, ...);
  \<close>
  The workers run in lockstep: a blocking exchange of step \<open>s\<close> is matched by the
  neighbour's exchange of the same step. \<open>sends\<close> holds the pair
  \<open>(left_send, right_send)\<close> of every rank. The first exchange delivers to a rank the
  \<open>left_send\<close> of its right neighbour, the second the \<open>right_send\<close> of its left neighbour;
  with \<^verbatim>\<open>MPI_PROC_NULL\<close> as source the receive buffer keeps its initial \<open>0\<close>.
\<close>

definition right_recv_of :: "int \<Rightarrow> (complex \<times> complex) list \<Rightarrow> int \<Rightarrow> complex" where
  "right_recv_of sz sends rank =
     (case right_rank sz rank of None \<Rightarrow> 0 | Some r \<Rightarrow> fst (sends ! nat r))"

definition left_recv_of :: "(complex \<times> complex) list \<Rightarrow> int \<Rightarrow> complex" where
  "left_recv_of sends rank =
     (case left_rank rank of None \<Rightarrow> 0 | Some r \<Rightarrow> snd (sends ! nat r))"

subsection \<open>The step loop of all workers\<close>

text \<open>
  The state of the distributed program is the list of the workers' vectors in rank
  order, ranks \<open>0 .. sz - 1\<close>. The MPI runtime gives \<open>1 \<le> sz\<close>.
\<close>

definition captures ::
  "int \<Rightarrow> int \<Rightarrow> complex list list \<Rightarrow> error + (complex \<times> complex) list" where
  "captures N sz psis =
     collect (map (\<lambda>rank. capture (local_N N sz rank) (psis ! nat rank)) [0..sz - 1])"

definition par_step ::
  "real \<Rightarrow> real \<Rightarrow> int \<Rightarrow> int \<Rightarrow> complex list list \<Rightarrow> error + complex list list" where
  "par_step J dt N sz psis =
     rbind (captures N sz psis) (\<lambda>sends.
     collect (map (\<lambda>rank. worker_update J dt sz rank (local_N N sz rank)
                             (left_recv_of sends rank) (right_recv_of sz sends rank)
                             (psis ! nat rank))
                [0..sz - 1]))"

function par_loop ::
  "real \<Rightarrow> real \<Rightarrow> int \<Rightarrow> int \<Rightarrow> int \<Rightarrow> int \<Rightarrow> complex list list
     \<Rightarrow> error + complex list list" where
  "par_loop J dt N sz steps s psis =
     (if s < steps then
        rbind (par_step J dt N sz psis) (\<lambda>psis'. par_loop J dt N sz steps (s + 1) psis')
      else Inr psis)"
  by pat_completeness auto
termination
  by (relation "measure (\<lambda>(J, dt, N, sz, steps, s, psis). nat (steps - s))") auto

text \<open>
  \<^verbatim>\<open>main\<close> of \<^verbatim>\<open>h_parallel.cpp\<close> on all ranks, from the parsed argument \<open>N\<close> on: every
  rank allocates \<^verbatim>\<open>psi(local_N, 1.0)\<close>, then the step loop runs. The result is the list
  of the final vectors in rank order.
\<close>

definition h_parallel :: "real \<Rightarrow> real \<Rightarrow> int \<Rightarrow> int \<Rightarrow> int \<Rightarrow> error + complex list list" where
  "h_parallel J dt steps N sz =
     rbind (collect (map (\<lambda>rank. alloc (local_N N sz rank) 1) [0..sz - 1])) (\<lambda>psis.
     par_loop J dt N sz steps 0 psis)"

text \<open>
  The \<open>sends\<close> of a state in which every rank's vector is non-empty: the first and the
  last element of every vector.
\<close>

definition sends_of :: "int \<Rightarrow> int \<Rightarrow> complex list list \<Rightarrow> (complex \<times> complex) list" where
  "sends_of N sz psis =
     map (\<lambda>rank. (psis ! nat rank ! 0, psis ! nat rank ! nat (local_N N sz rank - 1))) [0..sz - 1]"

section \<open>Notions of the specification\<close>

text \<open>
  The vector of one rank between the boundary overwrite and the local update of a step
  that starts in the state \<open>psis\<close>: the step of the worker cut off before its sweep.
\<close>

definition boundaries_applied ::
  "int \<Rightarrow> int \<Rightarrow> complex list list \<Rightarrow> int \<Rightarrow> error + complex list" where
  "boundaries_applied N sz psis rank =
     rbind (captures N sz psis) (\<lambda>sends.
     apply_boundaries sz rank (local_N N sz rank)
       (left_recv_of sends rank) (right_recv_of sz sends rank) (psis ! nat rank))"

text \<open>
  A state of the distributed program for \<open>N\<close> and \<open>sz\<close>: one vector per rank, of the
  rank's length \<^verbatim>\<open>local_N\<close>.
\<close>

definition segments_ok :: "int \<Rightarrow> int \<Rightarrow> complex list list \<Rightarrow> bool" where
  "segments_ok N sz psis =
     (map (\<lambda>psi. int (length psi)) psis = map (local_N N sz) [0..sz - 1])"

text \<open>The workers' final segments concatenated in rank order.\<close>

definition gather :: "error + complex list list \<Rightarrow> error + complex list" where
  "gather res = rbind res (\<lambda>psis. Inr (concat psis))"

text \<open>
  Two runs agree within a tolerance when both return a vector, of the same length, and
  corresponding elements differ by at most the tolerance in absolute value.
\<close>

fun within_tol :: "real \<Rightarrow> complex list \<Rightarrow> complex list \<Rightarrow> bool" where
  "within_tol tol [] [] = True"
| "within_tol tol (x # xs) (y # ys) = (cmod (x - y) \<le> tol \<and> within_tol tol xs ys)"
| "within_tol tol _ _ = False"

fun runs_agree :: "real \<Rightarrow> error + complex list \<Rightarrow> error + complex list \<Rightarrow> bool" where
  "runs_agree tol (Inr xs) (Inr ys) = within_tol tol xs ys"
| "runs_agree tol _ _ = False"

text \<open>
  The sweep in the words of the specification (4.2, step 4): for each pair
  \<open>(i, i + 1)\<close>, \<open>i = 0 .. L - 2\<close> in increasing order,
  \<open>temp = segment[i]\<close>,
  \<open>segment[i] = cos(J dt) segment[i] - i sin(J dt) segment[i+1]\<close>,
  \<open>segment[i+1] = cos(J dt) segment[i+1] - i sin(J dt) temp\<close>.
\<close>

definition pair_update :: "real \<Rightarrow> real \<Rightarrow> complex list \<Rightarrow> nat \<Rightarrow> complex list" where
  "pair_update J dt segment i =
     (let temp = segment ! i;
          segment1 = segment[i := complex_of_real (cos (J * dt)) * segment ! i
                                  - \<i> * complex_of_real (sin (J * dt)) * segment ! (i + 1)]
      in segment1[i + 1 := complex_of_real (cos (J * dt)) * segment1 ! (i + 1)
                             - \<i> * complex_of_real (sin (J * dt)) * temp])"

definition spec_sweep :: "real \<Rightarrow> real \<Rightarrow> complex list \<Rightarrow> complex list" where
  "spec_sweep J dt segment = foldl (pair_update J dt) segment [0..<length segment - 1]"

section \<open>The partition\<close>

text \<open>
  For a non-negative \<open>N\<close> and a positive worker count the truncating division of C++
  is the floor division of HOL.
\<close>

lemma sdiv_nonneg: "0 \<le> (a::int) \<Longrightarrow> 0 < b \<Longrightarrow> a sdiv b = a div b"
  by (simp add: signed_divide_int_def sgn_if)

lemma smod_nonneg: "0 \<le> (a::int) \<Longrightarrow> 0 < b \<Longrightarrow> a smod b = a mod b"
  by (simp add: signed_modulo_int_def sgn_if)

lemma local_N_nonneg:
  "0 \<le> N \<Longrightarrow> 1 \<le> sz \<Longrightarrow> local_N N sz r = N div sz + (if r < N mod sz then 1 else 0)"
  by (simp add: local_N_def sdiv_nonneg smod_nonneg)

lemma local_N_ge0: "0 \<le> N \<Longrightarrow> 1 \<le> sz \<Longrightarrow> 0 \<le> local_N N sz r"
  by (simp add: local_N_nonneg pos_imp_zdiv_nonneg_iff)

lemma local_N_ge1: "1 \<le> sz \<Longrightarrow> sz \<le> N \<Longrightarrow> 1 \<le> local_N N sz r"
proof -
  assume a: "1 \<le> sz" "sz \<le> N"
  then have "1 \<le> N div sz"
    using pos_imp_zdiv_pos_iff [of sz N] by linarith
  then show ?thesis using a by (simp add: local_N_nonneg)
qed

lemma offset_0: "offset N sz 0 = 0"
  by (simp add: offset_def)

lemma offset_Suc: "0 \<le> r \<Longrightarrow> offset N sz (r + 1) = offset N sz r + local_N N sz r"
  by (simp add: offset_def upto_rec2)

lemma offset_closed:
  assumes "0 \<le> N" "1 \<le> sz"
  shows "offset N sz (int k) = int k * (N div sz) + min (int k) (N mod sz)"
proof (induction k)
  case 0
  then show ?case using assms by (simp add: offset_0)
next
  case (Suc k)
  have "offset N sz (int (Suc k)) = offset N sz (int k) + local_N N sz (int k)"
    using offset_Suc [of "int k" N sz] by (simp add: add.commute)
  then show ?case using Suc assms
    by (simp add: local_N_nonneg algebra_simps min_def)
qed

lemma offset_total:
  assumes "0 \<le> N" "1 \<le> sz"
  shows "offset N sz sz = N"
proof -
  have "offset N sz (int (nat sz)) = int (nat sz) * (N div sz) + min (int (nat sz)) (N mod sz)"
    using assms by (rule offset_closed)
  moreover have "N mod sz < sz" using assms by simp
  ultimately have "offset N sz sz = sz * (N div sz) + N mod sz" using assms by (simp add: min_def)
  then show ?thesis by simp
qed

lemma offset_mono_nat:
  assumes "0 \<le> N" "1 \<le> sz"
  shows "offset N sz (int a) \<le> offset N sz (int (a + d))"
proof (induction d)
  case 0
  show ?case by simp
next
  case (Suc d)
  have "offset N sz (int (a + Suc d)) = offset N sz (int (a + d)) + local_N N sz (int (a + d))"
    using offset_Suc [of "int (a + d)" N sz] by (simp add: add.commute)
  with Suc local_N_ge0 [OF assms, of "int (a + d)"] show ?case by linarith
qed

lemma offset_mono:
  assumes "0 \<le> N" "1 \<le> sz" "0 \<le> r" "r \<le> r'"
  shows "offset N sz r \<le> offset N sz r'"
  using offset_mono_nat [OF assms(1,2), of "nat r" "nat (r' - r)"] assms(3,4)
  by simp

lemma owner_exists_nat:
  assumes "0 \<le> i" "i < offset N sz (int k)"
  shows "\<exists>r. 0 \<le> r \<and> r < int k \<and> offset N sz r \<le> i \<and> i < offset N sz r + local_N N sz r"
  using assms(2)
proof (induction k)
  case 0
  with assms(1) show ?case by (simp add: offset_0)
next
  case (Suc k)
  have step: "offset N sz (int (Suc k)) = offset N sz (int k) + local_N N sz (int k)"
    using offset_Suc [of "int k" N sz] by (simp add: add.commute)
  show ?case
  proof (cases "i < offset N sz (int k)")
    case True
    with Suc.IH obtain r where "0 \<le> r" "r < int k" "offset N sz r \<le> i"
      "i < offset N sz r + local_N N sz r" by blast
    then show ?thesis by (intro exI [of _ r]) simp
  next
    case False
    with Suc.prems step show ?thesis by (intro exI [of _ "int k"]) simp
  qed
qed

lemma owner_unique:
  assumes "0 \<le> N" "1 \<le> sz"
    and "0 \<le> r" "offset N sz r \<le> i" "i < offset N sz r + local_N N sz r"
    and "0 \<le> r'" "offset N sz r' \<le> i" "i < offset N sz r' + local_N N sz r'"
  shows "r = r'"
proof (rule ccontr)
  assume "r \<noteq> r'"
  then consider "r + 1 \<le> r'" | "r' + 1 \<le> r" by linarith
  then show False
  proof cases
    case 1
    have "offset N sz (r + 1) \<le> offset N sz r'"
      using assms(1,2,3) 1 by (intro offset_mono) simp_all
    with offset_Suc [OF assms(3), of N sz] assms(5,7) show False by linarith
  next
    case 2
    have "offset N sz (r' + 1) \<le> offset N sz r"
      using assms(1,2,6) 2 by (intro offset_mono) simp_all
    with offset_Suc [OF assms(6), of N sz] assms(4,8) show False by linarith
  qed
qed

text \<open>
  C3 (partition completeness). For \<open>N \<ge> 1\<close>, \<open>P \<ge> 1\<close> and \<open>N \<ge> P\<close> the lengths
  \<open>base + (r < remainder ? 1 : 0)\<close> of the ranks \<open>0 .. P - 1\<close> sum to \<open>N\<close>; the offsets
  start at \<open>0\<close>, each segment begins where the one before it ends, the last one ends at
  \<open>N\<close>, every segment is non-empty, and every global index \<open>i\<close> of \<open>[0, N)\<close> lies in the
  segment of exactly one rank.
\<close>

theorem partition_complete:
  assumes "1 \<le> N" "1 \<le> sz" "sz \<le> N"
  shows "sum_list (map (local_N N sz) [0..sz - 1]) = N
    \<and> offset N sz 0 = 0
    \<and> offset N sz sz = N
    \<and> (\<forall>r. 0 \<le> r \<and> r < sz \<longrightarrow>
          1 \<le> local_N N sz r \<and> offset N sz (r + 1) = offset N sz r + local_N N sz r)
    \<and> (\<forall>i. 0 \<le> i \<and> i < N \<longrightarrow>
          (\<exists>!r. 0 \<le> r \<and> r < sz \<and> offset N sz r \<le> i \<and> i < offset N sz r + local_N N sz r))"
proof (intro conjI allI impI)
  have N0: "0 \<le> N" using assms by simp
  show "sum_list (map (local_N N sz) [0..sz - 1]) = N"
    using offset_total [OF N0 assms(2)] by (simp add: offset_def)
  show "offset N sz 0 = 0" by (rule offset_0)
  show "offset N sz sz = N" by (rule offset_total [OF N0 assms(2)])
  show "1 \<le> local_N N sz r" for r by (rule local_N_ge1 [OF assms(2,3)])
  show "offset N sz (r + 1) = offset N sz r + local_N N sz r" if "0 \<le> r \<and> r < sz" for r
    using that by (simp add: offset_Suc)
  show "\<exists>!r. 0 \<le> r \<and> r < sz \<and> offset N sz r \<le> i \<and> i < offset N sz r + local_N N sz r"
    if i: "0 \<le> i \<and> i < N" for i
  proof -
    have "i < offset N sz (int (nat sz))"
      using i offset_total [OF N0 assms(2)] assms(2) by simp
    with i owner_exists_nat [of i N sz "nat sz"] assms(2)
    obtain r where r: "0 \<le> r" "r < sz" "offset N sz r \<le> i" "i < offset N sz r + local_N N sz r"
      by auto
    show ?thesis
    proof (rule ex1I [of _ r])
      show "0 \<le> r \<and> r < sz \<and> offset N sz r \<le> i \<and> i < offset N sz r + local_N N sz r"
        using r by simp
    next
      fix r'
      assume "0 \<le> r' \<and> r' < sz \<and> offset N sz r' \<le> i \<and> i < offset N sz r' + local_N N sz r'"
      then show "r' = r"
        using owner_unique [OF N0 assms(2), of r' i r] r by simp
    qed
  qed
qed

theorem partition_complete_witness:
  "(1::int) \<le> 10 \<and> (1::int) \<le> 3 \<and> (3::int) \<le> 10
   \<and> sum_list (map (local_N 10 3) [0..3 - 1]) = 10
   \<and> offset 10 3 0 = 0 \<and> offset 10 3 3 = 10
   \<and> 1 \<le> local_N 10 3 2 \<and> offset 10 3 (2 + 1) = offset 10 3 2 + local_N 10 3 2
   \<and> (\<exists>!r. 0 \<le> r \<and> r < 3 \<and> offset 10 3 r \<le> 5 \<and> 5 < offset 10 3 r + local_N 10 3 r)"
proof -
  have h: "(1::int) \<le> 10" "(1::int) \<le> 3" "(3::int) \<le> 10" by simp_all
  note pc = partition_complete [OF h]
  have "1 \<le> local_N 10 3 2 \<and> offset 10 3 (2 + 1) = offset 10 3 2 + local_N 10 3 2"
    using pc by (elim conjE allE [of _ "2::int"]) simp
  moreover have "\<exists>!r. 0 \<le> r \<and> r < 3 \<and> offset 10 3 r \<le> 5 \<and> 5 < offset 10 3 r + local_N 10 3 r"
    using pc by (elim conjE allE [of _ "5::int"]) simp
  ultimately show ?thesis using pc h by simp
qed

text \<open>
  C7 (partition fairness and the instance \<open>N = 10\<close>, \<open>P = 3\<close>). Rank \<open>r\<close> receives
  \<open>base + 1\<close> elements if \<open>r < remainder\<close> and \<open>base\<close> elements otherwise, so two lengths
  differ by at most one and so do the largest and the smallest length over all ranks.
  For \<open>N = 10\<close>, \<open>P = 3\<close> the lengths are \<open>[4, 3, 3]\<close>, the offsets \<open>[0, 4, 7]\<close>; rank 0 has
  no left neighbour, rank 2 no right neighbour, rank 1 has both.
\<close>

theorem partition_fair:
  "local_N N sz r = N sdiv sz + (if r < N smod sz then 1 else 0)
   \<and> \<bar>local_N N sz r - local_N N sz r'\<bar> \<le> 1
   \<and> (1 \<le> sz \<longrightarrow> Max (local_N N sz ` {0..sz - 1}) - Min (local_N N sz ` {0..sz - 1}) \<le> 1)
   \<and> map (local_N 10 3) [0, 1, 2] = [4, 3, 3]
   \<and> map (offset 10 3) [0, 1, 2] = [0, 4, 7]
   \<and> left_rank 0 = None \<and> right_rank 3 0 = Some 1
   \<and> left_rank 1 = Some 0 \<and> right_rank 3 1 = Some 2
   \<and> left_rank 2 = Some 1 \<and> right_rank 3 2 = None"
proof (intro conjI impI)
  show "local_N N sz r = N sdiv sz + (if r < N smod sz then 1 else 0)"
    by (simp add: local_N_def)
  show "\<bar>local_N N sz r - local_N N sz r'\<bar> \<le> 1"
    by (simp add: local_N_def)
  show "Max (local_N N sz ` {0..sz - 1}) - Min (local_N N sz ` {0..sz - 1}) \<le> 1" if "1 \<le> sz"
  proof -
    let ?S = "local_N N sz ` {0..sz - 1}"
    have fin: "finite ?S" and ne: "?S \<noteq> {}" using that by simp_all
    have "Max ?S \<le> N sdiv sz + 1"
      using fin ne by (simp add: local_N_def)
    moreover have "N sdiv sz \<le> Min ?S"
      using fin ne by (simp add: local_N_def)
    ultimately show ?thesis by linarith
  qed
  show "map (local_N 10 3) [0, 1, 2] = [4, 3, 3]"
    by (simp add: local_N_def signed_divide_int_def signed_modulo_int_def)
  show "map (offset 10 3) [0, 1, 2] = [0, 4, 7]"
    by (simp add: offset_def upto_rec1 local_N_def signed_divide_int_def signed_modulo_int_def)
qed (simp_all add: left_rank_def right_rank_def)

theorem partition_fair_witness:
  "(1::int) \<le> 3 \<and> Max (local_N 10 3 ` {0..3 - 1}) - Min (local_N 10 3 ` {0..3 - 1}) \<le> 1"
  using partition_fair [of 10 3 0 0] by simp

section \<open>The sweep\<close>

declare sweep.simps [simp del] serial_loop.simps [simp del] par_loop.simps [simp del]

lemma length_pair_update [simp]: "length (pair_update J dt psi i) = length psi"
  by (simp add: pair_update_def Let_def)

lemma length_foldl_pair_update [simp]:
  "length (foldl (pair_update J dt) psi ks) = length psi"
  by (induction ks arbitrary: psi) simp_all

lemma sweep_body:
  assumes "0 \<le> i" "i < int (length psi) - 1"
  shows "sweep J dt (int (length psi)) i psi
         = sweep J dt (int (length psi)) (i + 1) (pair_update J dt psi (nat i))"
proof -
  have n: "nat (i + 1) = nat i + 1" "nat i + 1 < length psi" "nat i < length psi"
    using assms by (simp_all add: nat_add_distrib)
  show ?thesis
    using assms n
    by (subst sweep.simps)
      (simp add: vec_get_def vec_set_def pair_update_def amp_update_def Let_def)
qed

lemma sweep_exit: "\<not> i < n - 1 \<Longrightarrow> sweep J dt n i psi = Inr psi"
  by (subst sweep.simps) simp

lemma sweep_foldl:
  "sweep J dt (int (length psi)) (int i) psi
   = Inr (foldl (pair_update J dt) psi [i..<length psi - 1])"
proof (induction "length psi - 1 - i" arbitrary: i psi)
  case 0
  then have "\<not> int i < int (length psi) - 1" by linarith
  moreover have "[i..<length psi - 1] = []" using 0 by simp
  ultimately show ?case by (simp add: sweep_exit)
next
  case (Suc k)
  then have lt: "i < length psi - 1" by linarith
  then have b: "0 \<le> int i" "int i < int (length psi) - 1" by linarith+
  have "sweep J dt (int (length psi)) (int i) psi
        = sweep J dt (int (length (pair_update J dt psi i))) (int (Suc i)) (pair_update J dt psi i)"
    using sweep_body [OF b, of J dt] by (simp add: add.commute)
  also have "\<dots> = Inr (foldl (pair_update J dt) (pair_update J dt psi i)
                          [Suc i..<length (pair_update J dt psi i) - 1])"
    using Suc.hyps(2) by (intro Suc.hyps(1)) simp
  also have "\<dots> = Inr (foldl (pair_update J dt) psi [i..<length psi - 1])"
    using lt by (simp add: upt_conv_Cons)
  finally show ?case .
qed

lemma sweep_spec: "sweep J dt (int (length psi)) 0 psi = Inr (spec_sweep J dt psi)"
  using sweep_foldl [of J dt psi 0] by (simp add: spec_sweep_def)

lemma rbind_Inr_iff: "rbind m f = Inr y \<longleftrightarrow> (\<exists>x. m = Inr x \<and> f x = Inr y)"
  by (cases m) simp_all

lemma vec_set_length: "vec_set psi i v = Inr psi' \<Longrightarrow> length psi' = length psi"
  by (auto simp: vec_set_def split: if_splits)

lemma sweep_length: "sweep J dt n i psi = Inr psi' \<Longrightarrow> length psi' = length psi"
proof (induction J dt n i psi arbitrary: psi' rule: sweep.induct)
  case (1 J dt n i psi)
  show ?case
  proof (cases "i < n - 1")
    case False
    with "1.prems" show ?thesis by (simp add: sweep_exit)
  next
    case True
    from "1.prems" True obtain temp nxt psi1 nxt1 psi2 where
      s1: "vec_set psi i (amp_update J dt temp nxt) = Inr psi1"
      and s2: "vec_set psi1 (i + 1) (amp_update J dt nxt1 temp) = Inr psi2"
      and rec: "sweep J dt n (i + 1) psi2 = Inr psi'"
      by (subst (asm) sweep.simps) (auto simp: rbind_Inr_iff)
    have "length psi' = length psi2"
      using "1.IH" [OF True rec] .
    with vec_set_length [OF s1] vec_set_length [OF s2] show ?thesis by simp
  qed
qed

lemma apply_boundaries_length:
  "apply_boundaries sz rank n l r psi = Inr psi' \<Longrightarrow> length psi' = length psi"
  by (auto simp: apply_boundaries_def rbind_Inr_iff vec_set_def split: if_splits)

lemma serial_loop_exit: "\<not> s < steps \<Longrightarrow> serial_loop J dt N steps s psi = Inr psi"
  by (subst serial_loop.simps) simp

lemma serial_loop_funpow:
  "serial_loop J dt (int (length psi)) steps s psi
   = Inr ((spec_sweep J dt ^^ nat (steps - s)) psi)"
proof (induction "nat (steps - s)" arbitrary: s psi)
  case 0
  then show ?case by (simp add: serial_loop_exit)
next
  case (Suc k)
  then have lt: "s < steps" and k: "k = nat (steps - (s + 1))" by linarith+
  have len: "length (spec_sweep J dt psi) = length psi" by (simp add: spec_sweep_def)
  have "serial_loop J dt (int (length psi)) steps s psi
        = serial_loop J dt (int (length (spec_sweep J dt psi))) steps (s + 1) (spec_sweep J dt psi)"
    using lt by (subst serial_loop.simps) (simp add: sweep_spec len)
  also have "\<dots> = Inr ((spec_sweep J dt ^^ k) (spec_sweep J dt psi))"
    using Suc.hyps(1) [OF k] k by simp
  also have "\<dots> = Inr ((spec_sweep J dt ^^ nat (steps - s)) psi)"
    using Suc.hyps(2) [symmetric] by (simp add: funpow_swap1)
  finally show ?case .
qed

lemma h_serial_funpow:
  "0 \<le> N \<Longrightarrow> h_serial J dt steps N = Inr ((spec_sweep J dt ^^ nat steps) (replicate (nat N) 1))"
  using serial_loop_funpow [of J dt "replicate (nat N) 1" steps 0]
  by (simp add: h_serial_def alloc_def)

text \<open>
  C4 (local update sweep). One sweep of the code over a vector of length \<open>L\<close>, with every
  access checked, returns what the specification's sweep describes: the pairs
  \<open>(i, i + 1)\<close> for \<open>i = 0 .. L - 2\<close> in increasing order, each pair setting
  \<open>segment[i] := cos(J dt) segment[i] - i sin(J dt) segment[i+1]\<close> and
  \<open>segment[i+1] := cos(J dt) segment[i+1] - i sin(J dt) temp\<close> with \<open>temp\<close> the value of
  \<open>segment[i]\<close> before the pair. This is one step of the serial program and the local
  update of a worker after its boundary overwrite. The sweep is sequential: pair \<open>i\<close>
  writes \<open>segment[i+1]\<close> from the values before the pair, and pair \<open>i + 1\<close> reads
  that value, not the one from before the sweep.
\<close>

theorem sweep_semantics:
  "sweep J dt (int (length psi)) 0 psi = Inr (spec_sweep J dt psi)
   \<and> serial_loop J dt (int (length psi)) 1 0 psi = Inr (spec_sweep J dt psi)
   \<and> worker_update J dt sz rank (int (length psi)) l r psi
       = rbind (apply_boundaries sz rank (int (length psi)) l r psi)
           (\<lambda>psi1. Inr (spec_sweep J dt psi1))
   \<and> (i + 2 < length psi \<longrightarrow>
        pair_update J dt psi i ! (i + 1) = amp_update J dt (psi ! (i + 1)) (psi ! i)
        \<and> pair_update J dt (pair_update J dt psi i) (i + 1) ! (i + 1)
            = amp_update J dt (amp_update J dt (psi ! (i + 1)) (psi ! i)) (psi ! (i + 2)))"
proof (intro conjI impI)
  show "sweep J dt (int (length psi)) 0 psi = Inr (spec_sweep J dt psi)"
    by (rule sweep_spec)
  show "serial_loop J dt (int (length psi)) 1 0 psi = Inr (spec_sweep J dt psi)"
    using serial_loop_funpow [of J dt psi 1 0] by simp
  show "worker_update J dt sz rank (int (length psi)) l r psi
       = rbind (apply_boundaries sz rank (int (length psi)) l r psi)
           (\<lambda>psi1. Inr (spec_sweep J dt psi1))"
  proof (cases "apply_boundaries sz rank (int (length psi)) l r psi")
    case (Inl e)
    then show ?thesis by (simp add: worker_update_def)
  next
    case (Inr psi1)
    then have "length psi1 = length psi"
      by (rule apply_boundaries_length)
    with Inr sweep_spec [of J dt psi1] show ?thesis by (simp add: worker_update_def)
  qed
  show "pair_update J dt psi i ! (i + 1) = amp_update J dt (psi ! (i + 1)) (psi ! i)"
    if "i + 2 < length psi"
    using that by (simp add: pair_update_def Let_def amp_update_def)
  show "pair_update J dt (pair_update J dt psi i) (i + 1) ! (i + 1)
            = amp_update J dt (amp_update J dt (psi ! (i + 1)) (psi ! i)) (psi ! (i + 2))"
    if "i + 2 < length psi"
    using that by (simp add: pair_update_def Let_def amp_update_def)
qed

theorem sweep_semantics_witness:
  "(0::nat) + 2 < length [1, 2, 3 :: complex]
   \<and> pair_update 1 2 [1, 2, 3] 0 ! (0 + 1) = amp_update 1 2 ([1, 2, 3] ! (0 + 1)) ([1, 2, 3] ! 0)
   \<and> pair_update 1 2 (pair_update 1 2 [1, 2, 3] 0) (0 + 1) ! (0 + 1)
       = amp_update 1 2 (amp_update 1 2 ([1, 2, 3] ! (0 + 1)) ([1, 2, 3] ! 0)) ([1, 2, 3] ! (0 + 2))
   \<and> sweep 1 2 (int (length [1, 2, 3 :: complex])) 0 [1, 2, 3] = Inr (spec_sweep 1 2 [1, 2, 3])"
  using sweep_semantics [of 1 2 "[1, 2, 3]" 1 0 0 0 0] by simp

lemma upt_0_3: "[0..<3] = [0, 1, 2]"
  by (simp add: upt_rec)

text \<open>
  C8 (one step on four ones). With \<open>N = 4\<close>, one step, \<open>dt = 0.01\<close>, \<open>J = 1\<close> and the
  initial state \<open>[1, 1, 1, 1]\<close>, writing \<open>c = cos 0.01\<close> and \<open>s = sin 0.01\<close>: the first
  pair gives \<open>segment[0] = segment[1] = c - i s\<close>; the second pair overwrites
  \<open>segment[1]\<close> and \<open>segment[2]\<close> from the new \<open>segment[1]\<close>; the third overwrites
  \<open>segment[2]\<close> and \<open>segment[3]\<close>; the sweep and the serial program return exactly
  the four values of that construction.
\<close>

theorem scenario_one_step:
  "(let c = complex_of_real (cos (1 / 100)); s = complex_of_real (sin (1 / 100));
        p0 = pair_update 1 (1 / 100) [1, 1, 1, 1] 0;
        p1 = pair_update 1 (1 / 100) p0 1;
        p2 = pair_update 1 (1 / 100) p1 2
    in p0 = [c - \<i> * s, c - \<i> * s, 1, 1]
     \<and> p1 = [c - \<i> * s, c * (c - \<i> * s) - \<i> * s, c - \<i> * s * (c - \<i> * s), 1]
     \<and> p2 = [c - \<i> * s, c * (c - \<i> * s) - \<i> * s,
              c * (c - \<i> * s * (c - \<i> * s)) - \<i> * s,
              c - \<i> * s * (c - \<i> * s * (c - \<i> * s))]
     \<and> sweep 1 (1 / 100) 4 0 [1, 1, 1, 1] = Inr p2
     \<and> h_serial 1 (1 / 100) 1 4 = Inr p2)"
proof -
  have sw: "spec_sweep 1 (1 / 100) [1, 1, 1, 1]
            = pair_update 1 (1 / 100) (pair_update 1 (1 / 100)
                (pair_update 1 (1 / 100) [1, 1, 1, 1] 0) 1) 2"
    by (simp add: spec_sweep_def upt_0_3 numeral_2_eq_2)
  have r: "replicate 4 (1::complex) = [1, 1, 1, 1]"
    by (simp add: numeral_eq_Suc)
  have a: "sweep 1 (1 / 100) 4 0 [1, 1, 1, 1] = Inr (spec_sweep 1 (1 / 100) [1, 1, 1, 1])"
    using sweep_spec [of 1 "1 / 100" "[1, 1, 1, 1]"] by simp
  have b: "h_serial 1 (1 / 100) 1 4 = Inr (spec_sweep 1 (1 / 100) [1, 1, 1, 1])"
    using h_serial_funpow [of 4 1 "1 / 100" 1] by (simp add: r)
  show ?thesis
    unfolding Let_def a b sw
    by (simp add: pair_update_def Let_def)
qed

section \<open>The distributed step\<close>

lemma collect_Inr_iff: "collect rs = Inr xs \<longleftrightarrow> rs = map Inr xs"
proof (induction rs arbitrary: xs)
  case Nil
  show ?case by auto
next
  case (Cons r rs)
  show ?case
  proof (cases r)
    case (Inl e)
    then show ?thesis by (cases xs) auto
  next
    case (Inr x)
    show ?thesis
    proof (cases "collect rs")
      case (Inl e)
      with Cons [of "tl xs"] Inr show ?thesis by (cases xs) auto
    next
      case r2: (Inr ys)
      with Cons [of ys] Cons [of "tl xs"] Inr show ?thesis by (cases xs) auto
    qed
  qed
qed

lemma collect_map_Inr:
  "(\<And>x. x \<in> set xs \<Longrightarrow> f x = Inr (g x)) \<Longrightarrow> collect (map f xs) = Inr (map g xs)"
  by (simp add: collect_Inr_iff)

lemma collect_Inl_mem: "collect rs = Inl e \<Longrightarrow> Inl e \<in> set rs"
proof (induction rs)
  case Nil
  then show ?case by simp
next
  case (Cons r rs)
  then show ?case
    by (cases r; cases "collect rs") auto
qed

lemma collect_fails: "Inl e \<in> set rs \<Longrightarrow> \<exists>e'. collect rs = Inl e'"
proof (induction rs)
  case Nil
  then show ?case by simp
next
  case (Cons r rs)
  then show ?case
    by (cases r; cases "collect rs") auto
qed

lemma length_ranks [simp]: "length [0..sz - 1] = nat sz"
  by simp

lemma nth_ranks: "k < nat sz \<Longrightarrow> [0..sz - 1] ! k = int k"
  by (simp add: nth_upto)

lemma segments_ok_length: "segments_ok N sz psis \<Longrightarrow> length psis = nat sz"
  unfolding segments_ok_def by (drule arg_cong [of _ _ length]) simp

lemma segments_ok_nth:
  assumes "segments_ok N sz psis" "0 \<le> rank" "rank < sz"
  shows "int (length (psis ! nat rank)) = local_N N sz rank"
proof -
  have k: "nat rank < nat sz" using assms by simp
  have "map (\<lambda>psi. int (length psi)) psis ! nat rank = map (local_N N sz) [0..sz - 1] ! nat rank"
    using assms(1) by (simp add: segments_ok_def)
  then show ?thesis
    using k assms segments_ok_length [OF assms(1)] by (simp add: nth_ranks)
qed

lemma segments_okI:
  assumes "length psis = nat sz"
    and "\<And>rank. 0 \<le> rank \<Longrightarrow> rank < sz \<Longrightarrow> int (length (psis ! nat rank)) = local_N N sz rank"
  shows "segments_ok N sz psis"
  unfolding segments_ok_def
proof (rule nth_equalityI)
  show "length (map (\<lambda>psi. int (length psi)) psis) = length (map (local_N N sz) [0..sz - 1])"
    using assms(1) by simp
next
  fix k assume "k < length (map (\<lambda>psi. int (length psi)) psis)"
  then have k: "k < nat sz" using assms(1) by simp
  then show "map (\<lambda>psi. int (length psi)) psis ! k = map (local_N N sz) [0..sz - 1] ! k"
    using assms(2) [of "int k"] assms(1) by (simp add: nth_ranks)
qed

lemma capture_ok:
  "1 \<le> n \<Longrightarrow> n = int (length psi) \<Longrightarrow> capture n psi = Inr (psi ! 0, psi ! nat (n - 1))"
  by (cases psi) (simp_all add: capture_def vec_get_def)

lemma capture_empty: "capture n [] = Inl OutOfBounds"
  by (simp add: capture_def vec_get_def)

lemma capture_error: "capture n psi = Inl e \<Longrightarrow> e = OutOfBounds"
  by (auto simp: capture_def vec_get_def split: if_splits)

lemma apply_boundaries_ok:
  assumes "1 \<le> n" "n = int (length psi)"
  shows "apply_boundaries sz rank n l r psi
         = Inr (let psi1 = (if rank = 0 then psi else psi[0 := l])
                in if rank = sz - 1 then psi1 else psi1[nat (n - 1) := r])"
  using assms
  by (cases psi) (simp_all add: apply_boundaries_def left_rank_def right_rank_def vec_set_def)

lemma worker_update_ok:
  assumes "1 \<le> n" "n = int (length psi)"
  shows "\<exists>psi'. worker_update J dt sz rank n l r psi = Inr psi' \<and> length psi' = length psi"
proof -
  obtain psi1 where b: "apply_boundaries sz rank n l r psi = Inr psi1"
    using apply_boundaries_ok [OF assms] by blast
  then have len: "length psi1 = length psi" by (rule apply_boundaries_length)
  then have "sweep J dt n 0 psi1 = Inr (spec_sweep J dt psi1)"
    using sweep_spec [of J dt psi1] assms(2) by simp
  with b len show ?thesis by (simp add: worker_update_def spec_sweep_def)
qed

lemma worker_update_length:
  "worker_update J dt sz rank n l r psi = Inr psi' \<Longrightarrow> length psi' = length psi"
proof -
  assume "worker_update J dt sz rank n l r psi = Inr psi'"
  then obtain psi1 where "apply_boundaries sz rank n l r psi = Inr psi1"
    "sweep J dt n 0 psi1 = Inr psi'"
    by (auto simp: worker_update_def rbind_Inr_iff)
  then show ?thesis
    using apply_boundaries_length [of sz rank n l r psi psi1] sweep_length [of J dt n 0 psi1 psi']
    by simp
qed

lemma captures_ok:
  assumes ok: "segments_ok N sz psis"
    and pos: "\<And>rank. 0 \<le> rank \<Longrightarrow> rank < sz \<Longrightarrow> 1 \<le> local_N N sz rank"
  shows "captures N sz psis = Inr (sends_of N sz psis)"
  unfolding captures_def sends_of_def
  by (rule collect_map_Inr) (simp add: capture_ok pos segments_ok_nth [OF ok])

lemma par_step_ok:
  assumes ok: "segments_ok N sz psis"
    and pos: "\<And>rank. 0 \<le> rank \<Longrightarrow> rank < sz \<Longrightarrow> 1 \<le> local_N N sz rank"
  shows "\<exists>psis'. par_step J dt N sz psis = Inr psis' \<and> segments_ok N sz psis'"
proof -
  let ?w = "\<lambda>rank. worker_update J dt sz rank (local_N N sz rank)
                     (left_recv_of (sends_of N sz psis) rank)
                     (right_recv_of sz (sends_of N sz psis) rank) (psis ! nat rank)"
  define g where "g rank = (case ?w rank of Inr psi' \<Rightarrow> psi' | Inl e \<Rightarrow> [])" for rank
  have w: "?w rank = Inr (g rank) \<and> length (g rank) = length (psis ! nat rank)"
    if "0 \<le> rank" "rank < sz" for rank
    using worker_update_ok [OF pos [OF that], of "psis ! nat rank" J dt sz rank
        "left_recv_of (sends_of N sz psis) rank" "right_recv_of sz (sends_of N sz psis) rank"]
      segments_ok_nth [OF ok that]
    by (auto simp: g_def)
  have "collect (map ?w [0..sz - 1]) = Inr (map g [0..sz - 1])"
    by (rule collect_map_Inr) (simp add: w)
  then have 1: "par_step J dt N sz psis = Inr (map g [0..sz - 1])"
    by (simp add: par_step_def captures_ok [OF ok pos])
  have "segments_ok N sz (map g [0..sz - 1])"
  proof (rule segments_okI)
    show "length (map g [0..sz - 1]) = nat sz" by simp
  next
    fix rank :: int assume r: "0 \<le> rank" "rank < sz"
    then have "map g [0..sz - 1] ! nat rank = g rank"
      by (simp add: nth_ranks)
    then show "int (length (map g [0..sz - 1] ! nat rank)) = local_N N sz rank"
      using w [OF r] segments_ok_nth [OF ok r] by simp
  qed
  with 1 show ?thesis by blast
qed

lemma par_loop_exit: "\<not> s < steps \<Longrightarrow> par_loop J dt N sz steps s psis = Inr psis"
  by (subst par_loop.simps) simp

lemma par_loop_ok:
  assumes pos: "\<And>rank. 0 \<le> rank \<Longrightarrow> rank < sz \<Longrightarrow> 1 \<le> local_N N sz rank"
  shows "segments_ok N sz psis \<Longrightarrow>
         \<exists>psis'. par_loop J dt N sz steps s psis = Inr psis' \<and> segments_ok N sz psis'"
proof (induction "nat (steps - s)" arbitrary: s psis)
  case 0
  then show ?case by (simp add: par_loop_exit)
next
  case (Suc k)
  then have lt: "s < steps" and k: "k = nat (steps - (s + 1))" by linarith+
  obtain psis1 where 1: "par_step J dt N sz psis = Inr psis1" and ok1: "segments_ok N sz psis1"
    using par_step_ok [OF Suc.prems pos] by blast
  have "par_loop J dt N sz steps s psis = par_loop J dt N sz steps (s + 1) psis1"
    using lt 1 by (subst par_loop.simps) simp
  with Suc.hyps(1) [OF k ok1] show ?case by simp
qed

lemma alloc_all:
  assumes "\<And>rank. 0 \<le> rank \<Longrightarrow> rank < sz \<Longrightarrow> 0 \<le> local_N N sz rank"
  shows "collect (map (\<lambda>rank. alloc (local_N N sz rank) 1) [0..sz - 1])
         = Inr (map (\<lambda>rank. replicate (nat (local_N N sz rank)) 1) [0..sz - 1])"
  by (rule collect_map_Inr) (simp add: alloc_def assms not_less)

lemma init_ok:
  assumes "\<And>rank. 0 \<le> rank \<Longrightarrow> rank < sz \<Longrightarrow> 0 \<le> local_N N sz rank"
  shows "segments_ok N sz (map (\<lambda>rank. replicate (nat (local_N N sz rank)) 1) [0..sz - 1])"
  by (rule segments_okI) (simp_all add: nth_ranks assms)

lemma h_parallel_ok:
  assumes "1 \<le> sz" "sz \<le> N"
  shows "\<exists>psis. h_parallel J dt steps N sz = Inr psis \<and> segments_ok N sz psis"
proof -
  have pos: "1 \<le> local_N N sz rank" for rank by (rule local_N_ge1 [OF assms])
  then have nn: "0 \<le> local_N N sz rank" for rank by (rule order_trans [rotated]) simp
  show ?thesis
    unfolding h_parallel_def alloc_all [of sz N, OF nn]
    using par_loop_ok [OF pos init_ok [of sz N, OF nn], of J dt steps 0] by simp
qed

lemma local_N_small:
  assumes "0 \<le> N" "N < sz"
  shows "local_N N sz rank = (if rank < N then 1 else 0)"
  using assms by (simp add: local_N_nonneg)

lemma par_loop_fail:
  assumes "par_step J dt N sz psis = Inl e" "s < steps"
  shows "par_loop J dt N sz steps s psis = Inl e"
  using assms by (subst par_loop.simps) simp

lemma captures_fail:
  assumes "0 \<le> rank" "rank < sz" "psis ! nat rank = []"
  shows "captures N sz psis = Inl OutOfBounds"
proof -
  let ?rs = "map (\<lambda>rank. capture (local_N N sz rank) (psis ! nat rank)) [0..sz - 1]"
  have "capture (local_N N sz rank) (psis ! nat rank) \<in> set ?rs"
    using assms(1,2) by auto
  then have "Inl OutOfBounds \<in> set ?rs"
    by (simp add: assms(3) capture_empty)
  then obtain e where e: "collect ?rs = Inl e"
    using collect_fails by blast
  then have "Inl e \<in> set ?rs" by (rule collect_Inl_mem)
  then obtain r where "capture (local_N N sz r) (psis ! nat r) = Inl e" by auto
  then have "e = OutOfBounds" by (rule capture_error)
  with e show ?thesis by (simp add: captures_def)
qed

lemma h_parallel_fail:
  assumes "0 \<le> N" "N < sz" "1 \<le> steps"
  shows "h_parallel J dt steps N sz = Inl OutOfBounds"
proof -
  have sz: "1 \<le> sz" using assms by simp
  have nn: "0 \<le> local_N N sz rank" for rank
    by (rule local_N_ge0 [OF assms(1) sz])
  let ?init = "map (\<lambda>rank. replicate (nat (local_N N sz rank)) (1::complex)) [0..sz - 1]"
  have "?init ! nat (sz - 1) = replicate (nat (local_N N sz (sz - 1))) 1"
    using sz by (simp add: nth_ranks)
  also have "\<dots> = []"
    using assms by (simp add: local_N_small)
  finally have "captures N sz ?init = Inl OutOfBounds"
    using sz by (intro captures_fail [of "sz - 1"]) simp_all
  then have "par_step J dt N sz ?init = Inl OutOfBounds"
    by (simp add: par_step_def)
  then have "par_loop J dt N sz steps 0 ?init = Inl OutOfBounds"
    using assms(3) by (intro par_loop_fail) simp_all
  then show ?thesis
    unfolding h_parallel_def alloc_all [of sz N, OF nn] by simp
qed

text \<open>
  C9 (indexing safety). With \<open>N \<ge> P \<ge> 1\<close> the parallel program returns a state for
  every step count: no access \<open>segment[0]\<close>, \<open>segment[local_N - 1]\<close> or in the sweep
  leaves its vector. The precondition is needed: with \<open>0 \<le> N < P\<close> the last rank
  has \<open>local_N = 0\<close>, allocates an empty vector, and the first step reads
  \<open>segment[0]\<close> out of bounds.
\<close>

theorem access_safety:
  "(1 \<le> sz \<and> sz \<le> N \<longrightarrow>
      (\<exists>psis. h_parallel J dt steps N sz = Inr psis \<and> segments_ok N sz psis))
   \<and> (0 \<le> N \<and> N < sz \<and> 1 \<le> steps \<longrightarrow>
        local_N N sz (sz - 1) = 0
        \<and> alloc (local_N N sz (sz - 1)) 1 = Inr []
        \<and> capture (local_N N sz (sz - 1)) [] = Inl OutOfBounds
        \<and> h_parallel J dt steps N sz = Inl OutOfBounds)"
proof (intro conjI impI)
  assume "1 \<le> sz \<and> sz \<le> N"
  then show "\<exists>psis. h_parallel J dt steps N sz = Inr psis \<and> segments_ok N sz psis"
    using h_parallel_ok [of sz N J dt steps] by simp
next
  assume a: "0 \<le> N \<and> N < sz \<and> 1 \<le> steps"
  then show l0: "local_N N sz (sz - 1) = 0" by (simp add: local_N_small)
  then show "alloc (local_N N sz (sz - 1)) 1 = Inr []" by (simp add: alloc_def)
  show "capture (local_N N sz (sz - 1)) [] = Inl OutOfBounds" by (rule capture_empty)
  show "h_parallel J dt steps N sz = Inl OutOfBounds"
    using a h_parallel_fail [of N sz steps J dt] by simp
qed

theorem access_safety_witness:
  "(1::int) \<le> 3 \<and> (3::int) \<le> 10
   \<and> (\<exists>psis. h_parallel 1 (1 / 100) 1000 10 3 = Inr psis \<and> segments_ok 10 3 psis)
   \<and> (0::int) \<le> 2 \<and> (2::int) < 3 \<and> (1::int) \<le> 1000
   \<and> local_N 2 3 (3 - 1) = 0
   \<and> h_parallel 1 (1 / 100) 1000 2 3 = Inl OutOfBounds"
  using access_safety [of 3 10 1 "1 / 100" 1000] access_safety [of 3 2 1 "1 / 100" 1000]
  by simp

text \<open>
  C2 (partitioner error contract). The specification asks for an InvalidInput error,
  before any allocation, whenever \<open>N < P\<close>. The code has no such check: for \<open>N = 2\<close> on three
  ranks, rank 2 gets \<open>local_N = 0\<close>, allocates an empty vector, enters the step loop and
  reads \<open>psi[0]\<close> out of bounds.
\<close>

theorem no_partition_error:
  "local_N 2 3 2 = 0
   \<and> alloc (local_N 2 3 2) 1 = Inr []
   \<and> h_parallel 1 (1 / 100) 1000 2 3 = Inl OutOfBounds"
proof -
  have "local_N 2 3 2 = 0" by (simp add: local_N_small)
  moreover have "h_parallel 1 (1 / 100) 1000 2 3 = Inl OutOfBounds"
    by (rule h_parallel_fail) simp_all
  ultimately show ?thesis by (simp add: alloc_def)
qed

section \<open>Evaluation on concrete states\<close>

lemma par_loop_one_step: "par_loop J dt N sz 1 0 psis = par_step J dt N sz psis"
  by (subst par_loop.simps, cases "par_step J dt N sz psis") (simp_all add: par_loop_exit)

lemma sweep_two: "sweep J dt 2 0 [a, b] = Inr (spec_sweep J dt [a, b])"
  using sweep_spec [of J dt "[a, b]"] by simp

lemma ranks_1: "[0..0] = [0::int]"
  by (simp add: upto_rec1)

lemma ranks_2: "[0..1] = [0, 1::int]"
  by (simp add: upto_rec1)

lemma ranks_3: "[0..2] = [0, 1, 2::int]"
  by (simp add: upto_rec1)

lemma replicate_2: "replicate 2 x = [x, x]"
  by (simp add: numeral_2_eq_2)

lemma local_N_one: "0 \<le> N \<Longrightarrow> local_N N 1 0 = N"
  by (simp add: local_N_nonneg)

lemma local_N_2_2: "local_N 2 2 0 = 1" "local_N 2 2 1 = 1"
  by (simp_all add: local_N_nonneg)

lemma local_N_3_2: "local_N 3 2 0 = 2" "local_N 3 2 1 = 1"
  by (simp_all add: local_N_nonneg)

lemma local_N_4_3: "local_N 4 3 0 = 2" "local_N 4 3 1 = 1" "local_N 4 3 2 = 1"
  by (simp_all add: local_N_nonneg)

lemma par_step_ones: "par_step J dt 2 2 [[1], [1]] = Inr [[1], [1]]"
  by (simp add: par_step_def captures_def ranks_2 local_N_2_2 capture_def vec_get_def
      worker_update_def apply_boundaries_def left_rank_def right_rank_def vec_set_def
      left_recv_of_def right_recv_of_def sweep_exit)

lemma par_loop_fixpoint:
  "par_step J dt N sz psis = Inr psis \<Longrightarrow> par_loop J dt N sz steps s psis = Inr psis"
proof (induction "nat (steps - s)" arbitrary: s)
  case 0
  then show ?case by (simp add: par_loop_exit)
next
  case (Suc k)
  then have lt: "s < steps" and k: "k = nat (steps - (s + 1))" by linarith+
  have "par_loop J dt N sz steps s psis = par_loop J dt N sz steps (s + 1) psis"
    using lt Suc.prems by (subst par_loop.simps) simp
  with Suc.hyps(1) [OF k Suc.prems] show ?case by simp
qed

lemma h_parallel_2_2: "h_parallel J dt steps 2 2 = Inr [[1], [1]]"
  by (simp add: h_parallel_def ranks_2 local_N_2_2 alloc_def par_loop_fixpoint par_step_ones)

lemma spec_sweep_pair:
  "spec_sweep J dt [a, a] = [a * cis (- (J * dt)), a * cis (- (J * dt))]"
  by (simp add: spec_sweep_def pair_update_def Let_def complex_eq_iff algebra_simps)

lemma cis_small_neq_1: "cis (- (1 / 100)) \<noteq> 1"
proof -
  have "(1 / 100 :: real) < pi" using pi_ge_two by linarith
  then have "0 < sin (1 / 100 :: real)" by (intro sin_gt_zero) simp_all
  then show ?thesis by (simp add: complex_eq_iff)
qed

lemma state_3_2:
  "h_parallel 1 (1 / 100) 1 3 2 = Inr [[cis (- (1 / 100)), cis (- (1 / 100))], [1]]"
  by (simp add: h_parallel_def ranks_2 local_N_3_2 alloc_def replicate_2 par_loop_one_step
      par_step_def captures_def capture_def vec_get_def
      worker_update_def apply_boundaries_def left_rank_def right_rank_def vec_set_def
      left_recv_of_def right_recv_of_def sweep_exit sweep_two spec_sweep_pair)

lemma overwrite_3_2:
  "boundaries_applied 3 2 [[cis (- (1 / 100)), cis (- (1 / 100))], [1]] 1
   = Inr [cis (- (1 / 100))]"
  by (simp add: boundaries_applied_def captures_def ranks_2 local_N_3_2 capture_def vec_get_def
      apply_boundaries_def left_rank_def right_rank_def vec_set_def
      left_recv_of_def right_recv_of_def)

lemma state_4_3:
  "h_parallel 1 (1 / 100) 1 4 3 = Inr [[cis (- (1 / 100)), cis (- (1 / 100))], [1], [1]]"
  by (simp add: h_parallel_def ranks_3 local_N_4_3 alloc_def replicate_2 par_loop_one_step
      par_step_def captures_def capture_def vec_get_def
      worker_update_def apply_boundaries_def left_rank_def right_rank_def vec_set_def
      left_recv_of_def right_recv_of_def sweep_exit sweep_two spec_sweep_pair)

lemma overwrite_4_3:
  "boundaries_applied 4 3 [[cis (- (1 / 100)), cis (- (1 / 100))], [1], [1]] 1 = Inr [1]"
  by (simp add: boundaries_applied_def captures_def ranks_3 local_N_4_3 capture_def vec_get_def
      apply_boundaries_def left_rank_def right_rank_def vec_set_def
      left_recv_of_def right_recv_of_def)

section \<open>Lengths\<close>

lemma spec_sweep_single: "spec_sweep J dt [x] = [x]"
  by (simp add: spec_sweep_def)

lemma funpow_fixpoint: "f x = x \<Longrightarrow> (f ^^ k) x = x"
  by (induction k) simp_all

lemma serial_loop_length:
  "serial_loop J dt N steps s psi = Inr psi' \<Longrightarrow> length psi' = length psi"
proof (induction "nat (steps - s)" arbitrary: s psi)
  case 0
  then show ?case by (simp add: serial_loop_exit)
next
  case (Suc k)
  then have lt: "s < steps" and k: "k = nat (steps - (s + 1))" by linarith+
  from Suc.prems lt obtain psi1 where 1: "sweep J dt N 0 psi = Inr psi1"
    and 2: "serial_loop J dt N steps (s + 1) psi1 = Inr psi'"
    by (subst (asm) serial_loop.simps) (auto simp: rbind_Inr_iff)
  show ?case
    using Suc.hyps(1) [OF k 2] sweep_length [OF 1] by simp
qed

lemma par_step_lengths:
  assumes len: "length psis = nat sz" and step: "par_step J dt N sz psis = Inr psis'"
  shows "map length psis' = map length psis"
proof -
  from step obtain sends where
    c: "collect (map (\<lambda>rank. worker_update J dt sz rank (local_N N sz rank)
                             (left_recv_of sends rank) (right_recv_of sz sends rank)
                             (psis ! nat rank)) [0..sz - 1]) = Inr psis'"
    by (auto simp: par_step_def rbind_Inr_iff)
  let ?w = "\<lambda>rank. worker_update J dt sz rank (local_N N sz rank)
                             (left_recv_of sends rank) (right_recv_of sz sends rank)
                             (psis ! nat rank)"
  from c have m: "map ?w [0..sz - 1] = map Inr psis'" by (simp add: collect_Inr_iff)
  then have l': "length psis' = nat sz"
    by (drule_tac arg_cong [of _ _ length]) simp
  show ?thesis
  proof (rule nth_equalityI)
    show "length (map length psis') = length (map length psis)" using l' len by simp
  next
    fix k assume "k < length (map length psis')"
    then have k: "k < nat sz" using l' by simp
    from m have "map ?w [0..sz - 1] ! k = map Inr psis' ! k" by simp
    then have "?w (int k) = Inr (psis' ! k)" using k l' by (simp add: nth_ranks)
    then have "length (psis' ! k) = length (psis ! k)"
      using worker_update_length by fastforce
    then show "map length psis' ! k = map length psis ! k" using k l' len by simp
  qed
qed

lemma par_loop_lengths:
  "length psis = nat sz \<Longrightarrow> par_loop J dt N sz steps s psis = Inr psis'
   \<Longrightarrow> map length psis' = map length psis"
proof (induction "nat (steps - s)" arbitrary: s psis)
  case 0
  then show ?case by (simp add: par_loop_exit)
next
  case (Suc k)
  then have lt: "s < steps" and k: "k = nat (steps - (s + 1))" by linarith+
  from Suc.prems(2) lt obtain psis1 where 1: "par_step J dt N sz psis = Inr psis1"
    and 2: "par_loop J dt N sz steps (s + 1) psis1 = Inr psis'"
    by (subst (asm) par_loop.simps) (auto simp: rbind_Inr_iff)
  have m: "map length psis1 = map length psis" by (rule par_step_lengths [OF Suc.prems(1) 1])
  then have "length psis1 = nat sz"
    using Suc.prems(1) by (drule_tac arg_cong [of _ _ length]) simp
  from Suc.hyps(1) [OF k this 2] m show ?case by simp
qed

text \<open>
  C10 (length-1 fixpoint, length preservation). In the serial program with \<open>N = 1\<close> the
  sweep makes no iteration, so for every step count the final state is the initial
  state \<open>[1]\<close>. No step of either program changes the length of a vector: not the
  sweep, not the serial loop, not the boundary overwrite, not a worker's step, and a
  step or a run of the distributed program leaves the length of every rank's vector as
  it was.
\<close>

theorem length_preserved:
  "h_serial J dt steps 1 = Inr [1]
   \<and> sweep J dt 1 0 psi = Inr psi
   \<and> (sweep J dt n i psi = Inr psi' \<longrightarrow> length psi' = length psi)
   \<and> (serial_loop J dt N steps s psi = Inr psi' \<longrightarrow> length psi' = length psi)
   \<and> (apply_boundaries sz rank n l r psi = Inr psi' \<longrightarrow> length psi' = length psi)
   \<and> (worker_update J dt sz rank n l r psi = Inr psi' \<longrightarrow> length psi' = length psi)
   \<and> (length psis = nat sz \<and> par_step J dt N sz psis = Inr psis'
        \<longrightarrow> map length psis' = map length psis)
   \<and> (length psis = nat sz \<and> par_loop J dt N sz steps s psis = Inr psis'
        \<longrightarrow> map length psis' = map length psis)"
proof (intro conjI impI)
  have "(spec_sweep J dt ^^ nat steps) [1] = [1]"
    by (rule funpow_fixpoint) (rule spec_sweep_single)
  then show "h_serial J dt steps 1 = Inr [1]"
    using h_serial_funpow [of 1 J dt steps] by simp
  show "sweep J dt 1 0 psi = Inr psi" by (simp add: sweep_exit)
  show "length psi' = length psi" if "sweep J dt n i psi = Inr psi'"
    using that by (rule sweep_length)
  show "length psi' = length psi" if "serial_loop J dt N steps s psi = Inr psi'"
    using that by (rule serial_loop_length)
  show "length psi' = length psi" if "apply_boundaries sz rank n l r psi = Inr psi'"
    using that by (rule apply_boundaries_length)
  show "length psi' = length psi" if "worker_update J dt sz rank n l r psi = Inr psi'"
    using that by (rule worker_update_length)
  show "map length psis' = map length psis"
    if "length psis = nat sz \<and> par_step J dt N sz psis = Inr psis'"
    using that par_step_lengths by blast
  show "map length psis' = map length psis"
    if "length psis = nat sz \<and> par_loop J dt N sz steps s psis = Inr psis'"
    using that par_loop_lengths by blast
qed

theorem length_preserved_witness:
  "sweep 1 (1 / 100) 2 0 [1, 1] = Inr (spec_sweep 1 (1 / 100) [1, 1])
   \<and> length (spec_sweep 1 (1 / 100) [1, 1]) = length [1, 1 :: complex]
   \<and> length [[1], [1 :: complex]] = nat 2
   \<and> par_step 1 (1 / 100) 2 2 [[1], [1]] = Inr [[1], [1]]
   \<and> map length [[1], [1 :: complex]] = map length [[1], [1 :: complex]]
   \<and> h_serial 1 (1 / 100) 1000 1 = Inr [1]"
  using length_preserved [of 1 "1 / 100" 1000 "[1, 1]" 2 0 "spec_sweep 1 (1 / 100) [1, 1]"]
    sweep_two [of 1 "1 / 100" 1 1] par_step_ones [of 1 "1 / 100"]
  by simp

section \<open>Serial against distributed\<close>

text \<open>A lower bound of \<open>pi\<close>, from the Taylor polynomial of the sine at 3.\<close>

lemma sin_coeffs:
  "sin_coeff (Suc 0) = 1" "sin_coeff 2 = 0" "sin_coeff 3 = - 1 / 6" "sin_coeff 4 = 0"
  "sin_coeff 5 = 1 / 120" "sin_coeff 6 = 0" "sin_coeff 7 = - 1 / 5040" "sin_coeff 8 = 0"
  "sin_coeff 9 = 1 / 362880" "sin_coeff 10 = 0" "sin_coeff 11 = - 1 / 39916800"
  by (simp_all add: sin_coeff_def fact_numeral)

lemma sum_12: "(\<Sum>m<(12::nat). f m) = f 0 + f 1 + f 2 + f 3 + f 4 + f 5 + f 6 + f 7 + f 8 + f 9 + f 10 + (f 11 :: real)"
  by (simp add: eval_nat_numeral)

lemma sin_taylor_3: "(1 / 10 :: real) < (\<Sum>m<12. sin_coeff m * (3::real) ^ m) - inverse (fact 12) * \<bar>3\<bar> ^ 12"
  unfolding sum_12 by (simp add: sin_coeffs fact_numeral)

lemma sin_3_pos: "0 < sin (3::real)"
  using Maclaurin_sin_bound [of 3 12] sin_taylor_3 by linarith

lemma pi_gt_3: "3 < pi"
proof (rule ccontr)
  assume "\<not> 3 < pi"
  then have "pi \<le> 3" by simp
  moreover have "(3::real) < 2 * pi" using pi_ge_two by linarith
  ultimately have "sin (3::real) \<le> 0" by (rule sin_le_zero)
  with sin_3_pos show False by simp
qed

lemma funpow_spec_sweep_pair:
  "(spec_sweep J dt ^^ k) [1, 1] = [cis (- (J * dt)) ^ k, cis (- (J * dt)) ^ k]"
proof (induction k)
  case 0
  show ?case by simp
next
  case (Suc k)
  then show ?case by (simp add: spec_sweep_pair mult.commute)
qed

lemma h_serial_2:
  "h_serial J dt steps 2 = Inr [cis (- (J * dt)) ^ nat steps, cis (- (J * dt)) ^ nat steps]"
proof -
  have "replicate 2 (1::complex) = [1, 1]" by (simp add: numeral_2_eq_2)
  then show ?thesis
    using h_serial_funpow [of 2 J dt steps] by (simp add: funpow_spec_sweep_pair)
qed

lemma cos_10_neg: "cos (10::real) < 0"
proof -
  have "cos (10 - 3 * pi) = cos 10 * cos (3 * pi) + sin 10 * sin (3 * pi)"
    by (rule cos_diff)
  moreover have "cos (3 * pi) = -1" using cos_npi [of 3] by simp
  moreover have "sin (3 * pi) = 0" using sin_npi [of 3] by simp
  ultimately have eq: "cos (10 - 3 * pi) = - cos 10" by simp
  have "- (pi / 2) < 10 - 3 * pi" "10 - 3 * pi < pi / 2"
    using pi_gt_3 pi_less_4 by linarith+
  then have "0 < cos (10 - 3 * pi)" by (rule cos_gt_zero_pi)
  with eq show ?thesis by simp
qed

lemma cis_pow_1000: "cis (- (1 * (1 / 100))) ^ nat 1000 = cis (- 10)"
  by (simp add: DeMoivre)

text \<open>
  C1, as stated, fails. With \<open>N = 2\<close> on two ranks (2 divides 2), \<open>dt = 0.01\<close>,
  \<open>J = 1\<close> and the source's 1000 steps, every rank holds one element: its sweep is
  empty and the halo exchange only copies the neighbour's \<open>1\<close>, so the gathered result is
  \<open>[1, 1]\<close>. The serial program rotates both elements in every step and ends with
  \<open>cis (- 10)\<close> twice, whose real part \<open>cos 10\<close> is negative: the results differ by more
  than \<open>1\<close> in each element, far beyond \<open>1e-12\<close>.
\<close>

theorem serial_parallel_differ:
  "\<not> runs_agree (1 / 10 ^ 12) (gather (h_parallel 1 (1 / 100) 1000 2 2))
       (h_serial 1 (1 / 100) 1000 2)"
proof -
  have "1 < Re (1 - cis (- 10))" using cos_10_neg by simp
  also have "\<dots> \<le> cmod (1 - cis (- 10))" by (rule complex_Re_le_cmod)
  finally have "\<not> cmod (1 - cis (- 10)) \<le> 1 / 10 ^ 12" by simp
  then show ?thesis
    unfolding h_parallel_2_2 h_serial_2 cis_pow_1000 by (simp add: gather_def)
qed

lemma par_step_single:
  assumes "1 \<le> N" "int (length psi) = N"
  shows "par_step J dt N 1 [psi] = Inr [spec_sweep J dt psi]"
proof -
  have N0: "0 \<le> N" using assms by simp
  have "capture N psi = Inr (psi ! 0, psi ! nat (N - 1))"
    using assms by (intro capture_ok) simp_all
  moreover have "sweep J dt N 0 psi = Inr (spec_sweep J dt psi)"
    using sweep_spec [of J dt psi] assms(2) by simp
  ultimately show ?thesis
    by (simp add: par_step_def captures_def ranks_1 local_N_one [OF N0] worker_update_def
        apply_boundaries_def left_rank_def right_rank_def)
qed

lemma par_loop_single:
  assumes "1 \<le> N"
  shows "int (length psi) = N \<Longrightarrow>
         par_loop J dt N 1 steps s [psi] = Inr [(spec_sweep J dt ^^ nat (steps - s)) psi]"
proof (induction "nat (steps - s)" arbitrary: s psi)
  case 0
  then show ?case by (simp add: par_loop_exit)
next
  case (Suc k)
  then have lt: "s < steps" and k: "k = nat (steps - (s + 1))" by linarith+
  have len: "int (length (spec_sweep J dt psi)) = N"
    using Suc.prems by (simp add: spec_sweep_def)
  have "par_loop J dt N 1 steps s [psi] = par_loop J dt N 1 steps (s + 1) [spec_sweep J dt psi]"
    using lt par_step_single [OF assms Suc.prems, of J dt] by (subst par_loop.simps) simp
  also have "\<dots> = Inr [(spec_sweep J dt ^^ k) (spec_sweep J dt psi)]"
    using Suc.hyps(1) [OF k len] k by simp
  also have "\<dots> = Inr [(spec_sweep J dt ^^ nat (steps - s)) psi]"
    using Suc.hyps(2) [symmetric] by (simp add: funpow_swap1)
  finally show ?case .
qed

lemma within_tol_refl: "0 \<le> tol \<Longrightarrow> within_tol tol xs xs"
  by (induction xs) simp_all

text \<open>
  C1, amended. For \<open>P = 1\<close> and \<open>N \<ge> 1\<close> the distributed program, its single segment
  gathered, returns exactly the vector of the serial program, for every step count,
  \<open>dt\<close> and \<open>J\<close>; so the two runs agree within every tolerance.
\<close>

theorem single_worker_equivalence:
  assumes "1 \<le> N"
  shows "gather (h_parallel J dt steps N 1) = h_serial J dt steps N
       \<and> (0 \<le> tol \<longrightarrow> runs_agree tol (gather (h_parallel J dt steps N 1)) (h_serial J dt steps N))"
proof -
  have N0: "0 \<le> N" using assms by simp
  have "h_parallel J dt steps N 1 = Inr [(spec_sweep J dt ^^ nat steps) (replicate (nat N) 1)]"
    using par_loop_single [OF assms, of "replicate (nat N) 1" J dt steps 0] N0
    by (simp add: h_parallel_def ranks_1 local_N_one alloc_def)
  then have g: "gather (h_parallel J dt steps N 1)
             = Inr ((spec_sweep J dt ^^ nat steps) (replicate (nat N) 1))"
    by (simp add: gather_def)
  show ?thesis
    unfolding g h_serial_funpow [OF N0] by (simp add: within_tol_refl)
qed

theorem single_worker_equivalence_witness:
  "(1::int) \<le> 4 \<and> gather (h_parallel 1 (1 / 100) 1000 4 1) = h_serial 1 (1 / 100) 1000 4
   \<and> (0::real) \<le> 1 / 10 ^ 12
   \<and> runs_agree (1 / 10 ^ 12) (gather (h_parallel 1 (1 / 100) 1000 4 1)) (h_serial 1 (1 / 100) 1000 4)"
proof -
  have h: "(1::int) \<le> 4" and c: "(0::real) \<le> 1 / 10 ^ 12" by simp_all
  note t = single_worker_equivalence [OF h, of 1 "1 / 100" 1000 "1 / 10 ^ 12"]
  from t have a: "gather (h_parallel 1 (1 / 100) 1000 4 1) = h_serial 1 (1 / 100) 1000 4"
    by (rule conjunct1)
  from t c have b: "runs_agree (1 / 10 ^ 12) (gather (h_parallel 1 (1 / 100) 1000 4 1))
      (h_serial 1 (1 / 100) 1000 4)"
    by blast
  from h a c b show ?thesis by blast
qed

section \<open>The halo exchange\<close>

lemma sends_of_nth:
  "0 \<le> r \<Longrightarrow> r < sz \<Longrightarrow>
   sends_of N sz psis ! nat r = (psis ! nat r ! 0, psis ! nat r ! nat (local_N N sz r - 1))"
  by (simp add: sends_of_def nth_ranks)

lemma left_recv_of_sends:
  "0 < rank \<Longrightarrow> rank < sz \<Longrightarrow>
   left_recv_of (sends_of N sz psis) rank
   = psis ! nat (rank - 1) ! nat (local_N N sz (rank - 1) - 1)"
  by (simp add: left_recv_of_def left_rank_def sends_of_nth)

lemma right_recv_of_sends:
  "0 \<le> rank \<Longrightarrow> rank < sz - 1 \<Longrightarrow>
   right_recv_of sz (sends_of N sz psis) rank = psis ! nat (rank + 1) ! 0"
  by (simp add: right_recv_of_def right_rank_def sends_of_nth)

lemma boundaries_applied_eq:
  assumes sz: "1 \<le> sz" "sz \<le> N" and ok: "segments_ok N sz psis"
    and r: "0 \<le> rank" "rank < sz"
  shows "boundaries_applied N sz psis rank
         = Inr (let psi = psis ! nat rank;
                    psi1 = (if rank = 0 then psi
                            else psi[0 := left_recv_of (sends_of N sz psis) rank])
                in if rank = sz - 1 then psi1
                   else psi1[nat (local_N N sz rank - 1)
                               := right_recv_of sz (sends_of N sz psis) rank])"
proof -
  have pos: "1 \<le> local_N N sz k" for k by (rule local_N_ge1 [OF sz])
  have c: "captures N sz psis = Inr (sends_of N sz psis)"
    by (rule captures_ok [OF ok pos])
  have len: "local_N N sz rank = int (length (psis ! nat rank))"
    using segments_ok_nth [OF ok r] by simp
  show ?thesis
    unfolding boundaries_applied_def c
    using apply_boundaries_ok [OF pos len, of sz rank] by (simp add: Let_def)
qed

text \<open>
  C5, amended (domain-edge boundary immutability). Let \<open>N \<ge> P \<ge> 1\<close> and let \<open>psis\<close> be
  any state of the distributed program, so the state before any step. If rank 0 has no
  neighbour at all (\<open>P = 1\<close>) or owns at least two elements, the exchange and boundary
  overwrite of the step leave the element at global index \<open>0\<close> as it was; likewise for
  the last rank and the element at global index \<open>N - 1\<close>. On the side without a
  neighbour the overwrite is skipped: the result does not depend on the receive buffer
  of that side, whose sentinel \<open>0\<close> is never stored.
\<close>

theorem edge_boundary_untouched:
  assumes "1 \<le> sz" "sz \<le> N" "segments_ok N sz psis"
  shows "(sz = 1 \<or> 2 \<le> local_N N sz 0 \<longrightarrow>
            (\<exists>psi'. boundaries_applied N sz psis 0 = Inr psi' \<and> psi' ! 0 = psis ! 0 ! 0))
       \<and> (sz = 1 \<or> 2 \<le> local_N N sz (sz - 1) \<longrightarrow>
            (\<exists>psi'. boundaries_applied N sz psis (sz - 1) = Inr psi'
               \<and> psi' ! nat (local_N N sz (sz - 1) - 1)
                   = psis ! nat (sz - 1) ! nat (local_N N sz (sz - 1) - 1)))
       \<and> apply_boundaries sz 0 n l r psi = apply_boundaries sz 0 n 0 r psi
       \<and> apply_boundaries sz (sz - 1) n l r psi = apply_boundaries sz (sz - 1) n l 0 psi"
proof (intro conjI impI)
  have len: "int (length (psis ! nat rank)) = local_N N sz rank" if "0 \<le> rank" "rank < sz" for rank
    using segments_ok_nth [OF assms(3) that] .
  show "\<exists>psi'. boundaries_applied N sz psis 0 = Inr psi' \<and> psi' ! 0 = psis ! 0 ! 0"
    if "sz = 1 \<or> 2 \<le> local_N N sz 0"
    using that len [of 0] assms(1)
    by (auto simp: boundaries_applied_eq [OF assms, of 0] Let_def)
  show "\<exists>psi'. boundaries_applied N sz psis (sz - 1) = Inr psi'
               \<and> psi' ! nat (local_N N sz (sz - 1) - 1)
                   = psis ! nat (sz - 1) ! nat (local_N N sz (sz - 1) - 1)"
    if "sz = 1 \<or> 2 \<le> local_N N sz (sz - 1)"
    using that len [of "sz - 1"] assms(1)
    by (auto simp: boundaries_applied_eq [OF assms, of "sz - 1"] Let_def)
  show "apply_boundaries sz 0 n l r psi = apply_boundaries sz 0 n 0 r psi"
    by (simp add: apply_boundaries_def left_rank_def)
  show "apply_boundaries sz (sz - 1) n l r psi = apply_boundaries sz (sz - 1) n l 0 psi"
    by (simp add: apply_boundaries_def right_rank_def)
qed

theorem edge_boundary_untouched_witness:
  "(1::int) \<le> 2 \<and> (2::int) \<le> 4 \<and> segments_ok 4 2 [[1, 2], [3, 4]]
   \<and> 2 \<le> local_N 4 2 0 \<and> 2 \<le> local_N 4 2 (2 - 1)
   \<and> (\<exists>psi'. boundaries_applied 4 2 [[1, 2], [3, 4]] 0 = Inr psi' \<and> psi' ! 0 = 1)
   \<and> (\<exists>psi'. boundaries_applied 4 2 [[1, 2], [3, 4]] (2 - 1) = Inr psi'
         \<and> psi' ! nat (local_N 4 2 (2 - 1) - 1) = 4)"
proof -
  have l: "local_N 4 2 0 = 2" "local_N 4 2 1 = 2" by (simp_all add: local_N_nonneg)
  have ok: "segments_ok 4 2 [[1, 2], [3, 4]]"
    by (simp add: segments_ok_def ranks_2 l)
  show ?thesis
    using edge_boundary_untouched [of 2 4 "[[1, 2], [3, 4]]"] ok by (simp add: l)
qed

text \<open>
  C5, as stated, fails when the edge worker owns a single element and has a neighbour:
  that element is also the boundary slot facing the neighbour. With \<open>N = 3\<close> on two
  ranks, rank 1 owns the global index \<open>2 = N - 1\<close> as its only element. After the first
  step it still holds \<open>1\<close>; the boundary overwrite of the second step replaces it by
  the left neighbour's \<open>cis (- 0.01)\<close>.
\<close>

theorem last_index_overwritten:
  "h_parallel 1 (1 / 100) 1 3 2 = Inr [[cis (- (1 / 100)), cis (- (1 / 100))], [1]]
   \<and> offset 3 2 1 + (local_N 3 2 1 - 1) = 3 - 1
   \<and> right_rank 2 1 = None
   \<and> [[cis (- (1 / 100)), cis (- (1 / 100))], [1]] ! nat 1 ! nat (local_N 3 2 1 - 1) = 1
   \<and> boundaries_applied 3 2 [[cis (- (1 / 100)), cis (- (1 / 100))], [1]] 1
       = Inr [cis (- (1 / 100))]
   \<and> [cis (- (1 / 100))] ! nat (local_N 3 2 1 - 1) \<noteq> 1"
  using cis_small_neq_1
  by (simp add: state_3_2 overwrite_3_2 local_N_3_2 offset_def ranks_1 right_rank_def)

text \<open>
  C6, amended (halo exchange values). Let \<open>N \<ge> P \<ge> 1\<close> and let \<open>psis\<close> be any state of
  the distributed program at the start of a step. After the exchange and the boundary
  overwrite, the last element of a worker with a right neighbour is that neighbour's
  \<open>segment[0]\<close> from the start of the step; the first element of a worker with a left
  neighbour is that neighbour's last element from the start of the step, provided the
  worker has no right neighbour or owns at least two elements. The values are copied,
  not blended.
\<close>

theorem halo_values:
  assumes "1 \<le> sz" "sz \<le> N" "segments_ok N sz psis" "0 \<le> rank" "rank < sz"
  shows "\<exists>psi'. boundaries_applied N sz psis rank = Inr psi'
      \<and> (rank < sz - 1 \<longrightarrow>
            psi' ! nat (local_N N sz rank - 1) = psis ! nat (rank + 1) ! 0)
      \<and> (0 < rank \<and> (rank = sz - 1 \<or> 2 \<le> local_N N sz rank) \<longrightarrow>
            psi' ! 0 = psis ! nat (rank - 1) ! nat (local_N N sz (rank - 1) - 1))"
proof -
  have len: "int (length (psis ! nat rank)) = local_N N sz rank"
    using segments_ok_nth [OF assms(3,4,5)] .
  have pos: "1 \<le> local_N N sz rank" by (rule local_N_ge1 [OF assms(1,2)])
  have l: "left_recv_of (sends_of N sz psis) rank
           = psis ! nat (rank - 1) ! nat (local_N N sz (rank - 1) - 1)" if "0 < rank"
    using that assms(5) by (rule left_recv_of_sends)
  have r: "right_recv_of sz (sends_of N sz psis) rank = psis ! nat (rank + 1) ! 0"
    if "rank < sz - 1"
    using assms(4) that by (rule right_recv_of_sends)
  have ne: "0 < length (psis ! nat rank)" using len pos by linarith
  have lt: "nat (local_N N sz rank - 1) < length (psis ! nat rank)" using len pos by linarith
  have k0: "nat (local_N N sz rank - 1) \<noteq> 0" if "2 \<le> local_N N sz rank"
    using that by linarith
  show ?thesis
    using l r ne lt k0
    by (auto simp: boundaries_applied_eq [OF assms] Let_def nth_list_update)
qed

theorem halo_values_witness:
  "(1::int) \<le> 3 \<and> (3::int) \<le> 6 \<and> segments_ok 6 3 [[1, 2], [3, 4], [5, 6]]
   \<and> (0::int) \<le> 1 \<and> (1::int) < 3 \<and> (1::int) < 3 - 1 \<and> 2 \<le> local_N 6 3 1
   \<and> (\<exists>psi'. boundaries_applied 6 3 [[1, 2], [3, 4], [5, 6]] 1 = Inr psi'
         \<and> psi' ! nat (local_N 6 3 1 - 1) = 5 \<and> psi' ! 0 = 2)"
proof -
  have l: "local_N 6 3 0 = 2" "local_N 6 3 1 = 2" "local_N 6 3 2 = 2"
    by (simp_all add: local_N_nonneg)
  have ok: "segments_ok 6 3 [[1, 2], [3, 4], [5, 6]]"
    by (simp add: segments_ok_def ranks_3 l)
  show ?thesis
    using halo_values [of 3 6 "[[1, 2], [3, 4], [5, 6]]" 1] ok by (simp add: l)
qed

text \<open>
  C6, as stated, fails for a worker with both neighbours and a single element: the
  second assignment overwrites what the first one stored. With \<open>N = 4\<close> on three
  ranks, after the first step rank 0 ends in \<open>cis (- 0.01)\<close> and ranks 1 and 2 hold
  \<open>[1]\<close>; in the second step rank 1 has a left neighbour, but after the overwrite its
  \<open>segment[0]\<close> is the right neighbour's \<open>1\<close>, not the left neighbour's last element.
\<close>

theorem left_halo_lost:
  "h_parallel 1 (1 / 100) 1 4 3 = Inr [[cis (- (1 / 100)), cis (- (1 / 100))], [1], [1]]
   \<and> left_rank 1 = Some 0
   \<and> boundaries_applied 4 3 [[cis (- (1 / 100)), cis (- (1 / 100))], [1], [1]] 1 = Inr [1]
   \<and> [1] ! 0 \<noteq> [[cis (- (1 / 100)), cis (- (1 / 100))], [1], [1]] ! nat 0 ! nat (local_N 4 3 0 - 1)"
  using cis_small_neq_1
  by (simp add: state_4_3 overwrite_4_3 local_N_4_3 left_rank_def)

end
